theory Spec2Isabelle
  imports Main
begin

section \<open>Text and characters\<close>

text \<open>
  A Python \<open>str\<close> is a sequence of Unicode code points, so a text is a list of natural
  numbers. \<open>ord\<close> reads the code point of an ASCII character and \<open>str\<close> turns an ASCII
  literal into a text.
\<close>

type_synonym pytext = "nat list"

definition ord :: "char \<Rightarrow> nat" where
  "ord c = of_char c"

definition str :: "string \<Rightarrow> pytext" where
  "str s = map ord s"

text \<open>
  \<open>\s\<close> in a \<open>str\<close> pattern is Unicode white space: the characters for which
  \<open>str.isspace\<close> holds (tab to carriage return, the four separators U+001C to U+001F,
  space, U+0085, U+00A0, U+1680, U+2000 to U+200A, U+2028, U+2029, U+202F, U+205F, U+3000).
\<close>

definition is_space :: "nat \<Rightarrow> bool" where
  "is_space c =
     ((9 \<le> c \<and> c \<le> 13) \<or> (28 \<le> c \<and> c \<le> 32) \<or> c = 133 \<or> c = 160 \<or> c = 5760
      \<or> (8192 \<le> c \<and> c \<le> 8202) \<or> c = 8232 \<or> c = 8233 \<or> c = 8239 \<or> c = 8287
      \<or> c = 12288)"

text \<open>
  Under \<open>re.IGNORECASE\<close> a \<open>str\<close> pattern compares lower-cased characters. The patterns
  of this file only ask for ASCII characters, white space and quotes, so of the Unicode
  lower-case mapping only the part that reaches an ASCII letter matters: the capital letters
  A to Z, U+0130 (capital I with dot above, lower case \<open>i\<close>) and U+212A (Kelvin sign,
  lower case \<open>k\<close>). Every other code point is left alone here. That is its lower case if
  it is an ASCII character, U+0131, U+017F or white space; for any other code point neither
  the real lower case nor the code point itself is a character that a pattern asks for.
\<close>

definition unicode_tolower :: "nat \<Rightarrow> nat" where
  "unicode_tolower c =
     (if 65 \<le> c \<and> c \<le> 90 then c + 32
      else if c = 304 then 105
      else if c = 8490 then 107
      else c)"

text \<open>
  The regex compiler also treats lower-case characters with the same upper case as equal:
  \<open>i\<close> and U+0131 (dotless i), \<open>s\<close> and U+017F (long s). \<open>caseless p c\<close>: the text
  character \<open>c\<close> matches the pattern character \<open>p\<close> when case is ignored.
\<close>

definition caseless :: "nat \<Rightarrow> nat \<Rightarrow> bool" where
  "caseless p c =
     (let a = unicode_tolower p; b = unicode_tolower c
      in a = b \<or> (a = 105 \<and> b = 305) \<or> (a = 115 \<and> b = 383))"

section \<open>Parsed patterns\<close>

text \<open>
  The five expressions of the deny list use literal characters, character sets (single
  characters, ranges and \<open>\s\<close>) and greedy repetitions of one character or set
  (\<open>?\<close>, \<open>*\<close>, \<open>{n,}\<close>). A pattern is the sequence of these nodes with its flag.
\<close>

datatype item = Chr nat | Range nat nat | Space

datatype atom = Literal nat | In "item list"

datatype node = One atom | Max_Repeat nat "nat option" atom

record pattern =
  nodes :: "node list"
  ignorecase :: bool

definition re_compile :: "node list \<Rightarrow> bool \<Rightarrow> pattern" where
  "re_compile ns flag = \<lparr>nodes = ns, ignorecase = flag\<rparr>"

definition literal :: "string \<Rightarrow> node list" where
  "literal s = map (\<lambda>c. One (Literal (ord c))) s"

fun item_ok :: "bool \<Rightarrow> item \<Rightarrow> nat \<Rightarrow> bool" where
  "item_ok ic (Chr p) c = (if ic then caseless p c else c = p)"
| "item_ok ic (Range lo hi) c =
     (if ic then (\<exists>p \<in> {lo..hi}. caseless p c) else lo \<le> c \<and> c \<le> hi)"
| "item_ok ic Space c = is_space c"

fun atom_ok :: "bool \<Rightarrow> atom \<Rightarrow> nat \<Rightarrow> bool" where
  "atom_ok ic (Literal p) c = (if ic then caseless p c else c = p)"
| "atom_ok ic (In items) c = list_ex (\<lambda>i. item_ok ic i c) items"

section \<open>The matching engine\<close>

text \<open>
  The compiled expressions are run by Python's \<open>re\<close> module, a backtracking matcher:
  at a start position it follows the nodes from left to right, takes the longest run for a
  greedy repetition first, and returns the first match it completes.
\<close>

text \<open>
  \<open>count_run\<close> is the engine's count of how many characters at the start of the text
  match the atom, up to the maximum of the repetition.
\<close>

definition count_run :: "(nat \<Rightarrow> bool) \<Rightarrow> nat option \<Rightarrow> pytext \<Rightarrow> nat" where
  "count_run P hi s =
     (let n = length (takeWhile P s)
      in case hi of None \<Rightarrow> n | Some m \<Rightarrow> min m n)"

text \<open>
  A greedy repetition takes as many characters as it can and gives them back one at a
  time until the rest of the pattern matches: \<open>backtrack rest lo n\<close> tries the counts
  \<open>n, n - 1, ..., lo\<close> and returns the length of the first match found.
\<close>

fun backtrack :: "(nat \<Rightarrow> nat option) \<Rightarrow> nat \<Rightarrow> nat \<Rightarrow> nat option" where
  "backtrack rest lo n =
     (if n < lo then None
      else case rest n of
        Some r \<Rightarrow> Some (n + r)
      | None \<Rightarrow> (if n = 0 then None else backtrack rest lo (n - 1)))"

declare backtrack.simps [simp del]

text \<open>
  \<open>sre_match ic ns s\<close>: the length of the match of the nodes \<open>ns\<close> at the start of
  \<open>s\<close> that the backtracking engine finds, or \<open>None\<close> when there is none.
\<close>

fun sre_match :: "bool \<Rightarrow> node list \<Rightarrow> pytext \<Rightarrow> nat option" where
  "sre_match ic [] s = Some 0"
| "sre_match ic (One a # ns) [] = None"
| "sre_match ic (One a # ns) (c # cs) =
     (if atom_ok ic a c then map_option Suc (sre_match ic ns cs) else None)"
| "sre_match ic (Max_Repeat lo hi a # ns) s =
     backtrack (\<lambda>k. sre_match ic ns (drop k s)) lo (count_run (atom_ok ic a) hi s)"

definition match_at :: "pattern \<Rightarrow> pytext \<Rightarrow> nat option" where
  "match_at p s = sre_match (ignorecase p) (nodes p) s"

text \<open>
  \<open>finditer p pos s\<close>: the matches of \<open>p\<close> in the rest \<open>s\<close> of the text, which starts at
  offset \<open>pos\<close>, from left to right and without overlap; each with its offset. The search
  goes on after the end of a match; after an empty match it moves on by one character.
\<close>

fun finditer :: "pattern \<Rightarrow> nat \<Rightarrow> pytext \<Rightarrow> (nat \<times> pytext) list" where
  "finditer p pos [] = (case match_at p [] of None \<Rightarrow> [] | Some n \<Rightarrow> [(pos, [])])"
| "finditer p pos (c # cs) =
     (case match_at p (c # cs) of
        None \<Rightarrow> finditer p (Suc pos) cs
      | Some 0 \<Rightarrow> (pos, []) # finditer p (Suc pos) cs
      | Some (Suc n) \<Rightarrow> (pos, c # take n cs) # finditer p (pos + Suc n) (drop n cs))"

section \<open>The detector\<close>

text \<open>
  \<open>[A-Za-z0-9_-]\<close>, \<open>[A-Za-z0-9]\<close>, \<open>['"\s]\<close>, \<open>[:=]\<close> and \<open>[_-]\<close>.
\<close>

definition word_hyphen :: atom where
  "word_hyphen = In [Range (ord CHR ''A'') (ord CHR ''Z''), Range (ord CHR ''a'') (ord CHR ''z''),
     Range (ord CHR ''0'') (ord CHR ''9''), Chr (ord CHR ''_''), Chr (ord CHR ''-'')]"

definition alnum :: atom where
  "alnum = In [Range (ord CHR ''A'') (ord CHR ''Z''), Range (ord CHR ''a'') (ord CHR ''z''),
     Range (ord CHR ''0'') (ord CHR ''9'')]"

definition quote_space :: atom where
  "quote_space = In [Chr (ord CHR 0x27), Chr (ord CHR 0x22), Space]"

definition colon_equals :: atom where
  "colon_equals = In [Chr (ord CHR '':''), Chr (ord CHR ''='')]"

definition underscore_hyphen :: atom where
  "underscore_hyphen = In [Chr (ord CHR ''_''), Chr (ord CHR ''-'')]"

text \<open>
  The five compiled expressions of the class attribute \<open>denylist\<close>, in its order. Only
  the last two are compiled with \<open>re.IGNORECASE\<close>.
\<close>

definition re_anthropic :: pattern where
  "re_anthropic =
     re_compile (literal ''sk-ant-api03-'' @ [Max_Repeat 95 None word_hyphen]) False"

definition re_sk :: pattern where
  "re_sk = re_compile (literal ''sk-'' @ [Max_Repeat 48 None alnum]) False"

definition re_pa :: pattern where
  "re_pa = re_compile (literal ''pa-'' @ [Max_Repeat 48 None alnum]) False"

definition re_api_key :: pattern where
  "re_api_key =
     re_compile (literal ''api'' @ [Max_Repeat 0 (Some 1) underscore_hyphen] @ literal ''key''
       @ [Max_Repeat 0 None quote_space, One colon_equals, Max_Repeat 0 None quote_space,
          Max_Repeat 20 None word_hyphen]) True"

definition re_apikey :: pattern where
  "re_apikey =
     re_compile (literal ''apikey''
       @ [Max_Repeat 0 None quote_space, One colon_equals, Max_Repeat 0 None quote_space,
          Max_Repeat 20 None word_hyphen]) True"

record detector =
  secret_type :: string
  denylist :: "pattern list"

definition AnthropicSecretsDetector :: detector where
  "AnthropicSecretsDetector =
     \<lparr>secret_type = ''API Credentials'',
      denylist = [re_anthropic, re_sk, re_pa, re_api_key, re_apikey]\<rparr>"

section \<open>Scanning\<close>

text \<open>
  Modelled from the spec: the record of one reported match, which the scanning framework
  builds and this repository does not define. By the specification's data model a finding
  is the pattern (its position in the list, counted from 1), the matched text and its
  offset, tagged with the secret type of the detector.
\<close>

record finding =
  pattern_no :: nat
  matched_text :: pytext
  offset :: nat
  category :: string

text \<open>
  Modelled from the spec: the operation \<open>scan\<close>, which the detector inherits from the
  scanning framework's base class; that class is not part of this repository. As the
  specification describes it, each pattern of the list is run over the whole input on its
  own, and every match found from left to right is one finding, in the order of the list.
  The call is written in state-passing style: it returns the findings and the detector as
  the call leaves it.
\<close>

definition findings_of :: "string \<Rightarrow> nat \<times> pattern \<Rightarrow> pytext \<Rightarrow> finding list" where
  "findings_of label ip t =
     map (\<lambda>(pos, w). \<lparr>pattern_no = fst ip, matched_text = w, offset = pos, category = label\<rparr>)
       (finditer (snd ip) 0 t)"

definition scan_on :: "detector \<Rightarrow> pytext \<Rightarrow> finding list \<times> detector" where
  "scan_on d t =
     (concat (map (\<lambda>ip. findings_of (secret_type d) ip t) (enumerate 1 (denylist d))), d)"

definition scan :: "pytext \<Rightarrow> finding list" where
  "scan t = fst (scan_on AnthropicSecretsDetector t)"

section \<open>What a pattern matches\<close>

text \<open>
  The meaning of a pattern, independent of the engine's search order: \<open>accepts ic ns w\<close>
  holds when the whole of \<open>w\<close> is matched by the nodes \<open>ns\<close>, a repetition taking any
  number of characters within its bounds.
\<close>

definition within :: "nat option \<Rightarrow> nat \<Rightarrow> bool" where
  "within hi k = (case hi of None \<Rightarrow> True | Some m \<Rightarrow> k \<le> m)"

fun accepts :: "bool \<Rightarrow> node list \<Rightarrow> pytext \<Rightarrow> bool" where
  "accepts ic [] w = (w = [])"
| "accepts ic (One a # ns) [] = False"
| "accepts ic (One a # ns) (c # w) = (atom_ok ic a c \<and> accepts ic ns w)"
| "accepts ic (Max_Repeat lo hi a # ns) w =
     (\<exists>k \<in> {lo..length w}. within hi k \<and> list_all (atom_ok ic a) (take k w)
        \<and> accepts ic ns (drop k w))"

definition fullmatch :: "pattern \<Rightarrow> pytext \<Rightarrow> bool" where
  "fullmatch p w = accepts (ignorecase p) (nodes p) w"

text \<open>
  \<open>has_match p t\<close>: some part of the text \<open>t\<close>, from some position \<open>i\<close> and of some
  length \<open>n\<close>, is matched by \<open>p\<close>. \<open>min_length\<close> is the least number of characters a
  sequence of nodes can match.
\<close>

definition has_match :: "pattern \<Rightarrow> pytext \<Rightarrow> bool" where
  "has_match p t =
     (\<exists>i \<in> {..length t}. \<exists>n \<in> {..length t - i}. fullmatch p (take n (drop i t)))"

fun min_length :: "node list \<Rightarrow> nat" where
  "min_length [] = 0"
| "min_length (One a # ns) = Suc (min_length ns)"
| "min_length (Max_Repeat lo hi a # ns) = lo + min_length ns"

section \<open>The engine finds exactly what the patterns accept\<close>

subsection \<open>Backtracking and counting\<close>

lemma backtrack_Some:
  "backtrack f lo n = Some r \<Longrightarrow> \<exists>k r'. lo \<le> k \<and> k \<le> n \<and> f k = Some r' \<and> r = k + r'"
proof (induction f lo n rule: backtrack.induct)
  case (1 rest lo n)
  show ?case
  proof (cases "rest n")
    case None
    with "1.prems" have "n \<noteq> 0" "\<not> n < lo" "backtrack rest lo (n - 1) = Some r"
      by (auto simp: backtrack.simps [of rest lo n] split: if_splits)
    with "1.IH" None obtain k r' where "lo \<le> k" "k \<le> n - 1" "rest k = Some r'" "r = k + r'"
      by blast
    then show ?thesis by (intro exI [of _ k] exI [of _ r']) auto
  next
    case (Some r')
    with "1.prems" have "\<not> n < lo" "r = n + r'"
      by (auto simp: backtrack.simps [of rest lo n] split: if_splits)
    with Some show ?thesis by (intro exI [of _ n] exI [of _ r']) auto
  qed
qed

lemma backtrack_finds:
  "lo \<le> k \<Longrightarrow> k \<le> n \<Longrightarrow> f k \<noteq> None \<Longrightarrow> backtrack f lo n \<noteq> None"
proof (induction f lo n rule: backtrack.induct)
  case (1 rest lo n)
  show ?case
  proof (cases "rest n")
    case None
    with "1.prems" have "k \<noteq> n" by auto
    with "1.prems" have "k \<le> n - 1" "n \<noteq> 0" "\<not> n < lo" by auto
    with "1.IH" "1.prems" None have "backtrack rest lo (n - 1) \<noteq> None" by blast
    with None \<open>n \<noteq> 0\<close> \<open>\<not> n < lo\<close> show ?thesis
      by (simp add: backtrack.simps [of rest lo n])
  next
    case (Some r')
    with "1.prems" show ?thesis by (simp add: backtrack.simps [of rest lo n])
  qed
qed

lemma takeWhile_take_all:
  "k \<le> length (takeWhile P s) \<Longrightarrow> list_all P (take k s)"
proof (induction s arbitrary: k)
  case Nil
  then show ?case by simp
next
  case (Cons c s)
  then show ?case by (cases k) (auto split: if_splits)
qed

lemma count_run_le: "count_run P hi s \<le> length (takeWhile P s)"
  by (simp add: count_run_def Let_def split: option.splits)

lemma count_run_within: "k \<le> count_run P hi s \<Longrightarrow> within hi k"
  by (auto simp: count_run_def within_def Let_def split: option.splits)

lemma count_run_take:
  assumes "k \<le> count_run P hi s"
  shows "k \<le> length s" and "within hi k" and "list_all P (take k s)"
proof -
  from assms count_run_le [of P hi s] have k: "k \<le> length (takeWhile P s)" by simp
  with length_takeWhile_le [of P s] show "k \<le> length s" by simp
  from assms show "within hi k" by (rule count_run_within)
  from k show "list_all P (take k s)" by (rule takeWhile_take_all)
qed

lemma takeWhile_all_prefix:
  "list_all P u \<Longrightarrow> length u \<le> length (takeWhile P (u @ v))"
  by (induction u) auto

lemma count_run_reaches:
  "list_all P u \<Longrightarrow> within hi (length u) \<Longrightarrow> length u \<le> count_run P hi (u @ v)"
  using takeWhile_all_prefix [of P u v]
  by (auto simp: count_run_def within_def Let_def split: option.splits)

lemma sre_match_sound:
  "sre_match ic ns s = Some n \<Longrightarrow> n \<le> length s \<and> accepts ic ns (take n s)"
proof (induction ic ns s arbitrary: n rule: sre_match.induct)
  case (1 ic s)
  then show ?case by simp
next
  case (2 ic a ns)
  then show ?case by simp
next
  case (3 ic a ns c cs)
  then show ?case by (auto split: if_splits)
next
  case (4 ic lo hi a ns s)
  from "4.prems" obtain k r where k: "lo \<le> k" "k \<le> count_run (atom_ok ic a) hi s"
      and r: "sre_match ic ns (drop k s) = Some r" and n: "n = k + r"
    by (auto dest: backtrack_Some)
  from k(2) have ks: "k \<le> length s" "within hi k" "list_all (atom_ok ic a) (take k s)"
    by (rule count_run_take)+
  from "4.IH" r have ih: "r \<le> length (drop k s)" "accepts ic ns (take r (drop k s))"
    by blast+
  from ih(1) ks(1) n have le: "n \<le> length s" by simp
  have tk: "take k (take n s) = take k s" using n by (simp add: min_def)
  have dk: "drop k (take n s) = take r (drop k s)" using n by (simp add: drop_take)
  have "k \<in> {lo..length (take n s)}" using k(1) le n by simp
  with ks tk dk ih(2) have "accepts ic (Max_Repeat lo hi a # ns) (take n s)"
    by (auto intro!: bexI [of _ k])
  with le show ?case by simp
qed

lemma sre_match_complete:
  "accepts ic ns w \<Longrightarrow> sre_match ic ns (w @ v) \<noteq> None"
proof (induction ic ns w rule: accepts.induct)
  case (1 ic w)
  then show ?case by simp
next
  case (2 ic a ns)
  then show ?case by simp
next
  case (3 ic a ns c w)
  then show ?case by auto
next
  case (4 ic lo hi a ns w)
  from "4.prems" obtain k where k: "lo \<le> k" "k \<le> length w" "within hi k"
      "list_all (atom_ok ic a) (take k w)" "accepts ic ns (drop k w)"
    by auto
  from "4.IH" [of k] k have rest: "sre_match ic ns (drop k w @ v) \<noteq> None" by simp
  have "length (take k w) \<le> count_run (atom_ok ic a) hi (take k w @ (drop k w @ v))"
    using k by (intro count_run_reaches) simp_all
  moreover have "length (take k w) = k" using k(2) by simp
  moreover have "take k w @ (drop k w @ v) = w @ v" by simp
  ultimately have reach: "k \<le> count_run (atom_ok ic a) hi (w @ v)" by metis
  from k(2) have "drop k (w @ v) = drop k w @ v" by simp
  with rest have "(\<lambda>j. sre_match ic ns (drop j (w @ v))) k \<noteq> None" by simp
  with backtrack_finds [of lo k _ "\<lambda>j. sre_match ic ns (drop j (w @ v))"] k(1) reach
  show ?case by simp
qed

subsection \<open>Searching a text\<close>

lemma match_at_sound:
  "match_at p s = Some n \<Longrightarrow> n \<le> length s \<and> fullmatch p (take n s)"
  unfolding match_at_def fullmatch_def by (rule sre_match_sound)

lemma match_at_complete:
  "fullmatch p w \<Longrightarrow> match_at p (w @ v) \<noteq> None"
  unfolding match_at_def fullmatch_def by (rule sre_match_complete)

lemma finditer_sound:
  "(q, w) \<in> set (finditer p pos s) \<Longrightarrow>
     \<exists>u v. s = u @ w @ v \<and> q = pos + length u \<and> match_at p (w @ v) = Some (length w)"
proof (induction p pos s rule: finditer.induct)
  case (1 p pos)
  then obtain m where "(q, w) = (pos, [])" and "match_at p [] = Some m"
    by (cases "match_at p []") auto
  moreover from this match_at_sound [of p "[]" m] have "m = 0" by simp
  ultimately show ?case by simp
next
  case (2 p pos c cs)
  show ?case
  proof (cases "match_at p (c # cs)")
    case None
    with "2.prems" have "(q, w) \<in> set (finditer p (Suc pos) cs)" by simp
    with "2.IH"(1) None obtain u v where
      "cs = u @ w @ v" "q = Suc pos + length u" "match_at p (w @ v) = Some (length w)"
      by blast
    then show ?thesis by (intro exI [of _ "c # u"] exI [of _ v]) simp
  next
    case (Some m)
    show ?thesis
    proof (cases m)
      case 0
      with "2.prems" Some
      consider "(q, w) = (pos, [])" | "(q, w) \<in> set (finditer p (Suc pos) cs)" by auto
      then show ?thesis
      proof cases
        case 1
        with Some 0 show ?thesis by (intro exI [of _ "[]"] exI [of _ "c # cs"]) simp
      next
        case 2
        with "2.IH"(2) Some 0 obtain u v where
          "cs = u @ w @ v" "q = Suc pos + length u" "match_at p (w @ v) = Some (length w)"
          by blast
        then show ?thesis by (intro exI [of _ "c # u"] exI [of _ v]) simp
      qed
    next
      case (Suc n)
      with Some match_at_sound [of p "c # cs" "Suc n"] have n: "n \<le> length cs" by simp
      from "2.prems" Some Suc
      consider "(q, w) = (pos, c # take n cs)"
        | "(q, w) \<in> set (finditer p (pos + Suc n) (drop n cs))" by auto
      then show ?thesis
      proof cases
        case 1
        with Some Suc n show ?thesis
          by (intro exI [of _ "[]"] exI [of _ "drop n cs"]) (simp add: min_def)
      next
        case 2
        with "2.IH"(3) Some Suc obtain u v where uv: "drop n cs = u @ w @ v"
          "q = pos + Suc n + length u" "match_at p (w @ v) = Some (length w)"
          by blast
        have "c # cs = (c # take n cs @ u) @ w @ v"
          using uv(1) by (metis append_Cons append_assoc append_take_drop_id)
        moreover have "q = pos + length (c # take n cs @ u)" using uv(2) n by (simp add: min_def)
        ultimately show ?thesis using uv(3) by blast
      qed
    qed
  qed
qed

lemma finditer_empty:
  "finditer p pos s = [] \<Longrightarrow> s = u @ v \<Longrightarrow> match_at p v = None"
proof (induction p pos s arbitrary: u rule: finditer.induct)
  case (1 p pos)
  then show ?case by (auto split: option.splits)
next
  case (2 p pos c cs)
  from "2.prems"(1) have none: "match_at p (c # cs) = None"
    and rest: "finditer p (Suc pos) cs = []"
    by (auto split: option.splits nat.splits)
  show ?case
  proof (cases u)
    case Nil
    with "2.prems"(2) none show ?thesis by simp
  next
    case (Cons a u')
    with "2.prems"(2) have "cs = u' @ v" by simp
    with "2.IH"(1) none rest show ?thesis by blast
  qed
qed

lemma finditer_finds:
  assumes "s = u @ w @ v" and "fullmatch p w"
  shows "finditer p pos s \<noteq> []"
proof
  assume "finditer p pos s = []"
  with assms(1) have "match_at p (w @ v) = None" by (intro finditer_empty [of p pos s u]) simp_all
  with match_at_complete [OF assms(2), of v] show False by simp
qed

lemma finditer_fullmatch:
  assumes "(q, w) \<in> set (finditer p pos s)"
  shows "fullmatch p w \<and> (\<exists>u v. s = u @ w @ v \<and> q = pos + length u)"
proof -
  from finditer_sound [OF assms] obtain u v where
    uv: "s = u @ w @ v" "q = pos + length u" "match_at p (w @ v) = Some (length w)"
    by blast
  from match_at_sound [OF uv(3)] have "fullmatch p w" by simp
  with uv show ?thesis by blast
qed

subsection \<open>The findings of a scan\<close>

lemma scan_unfold:
  "scan t =
     findings_of ''API Credentials'' (1, re_anthropic) t
     @ findings_of ''API Credentials'' (2, re_sk) t
     @ findings_of ''API Credentials'' (3, re_pa) t
     @ findings_of ''API Credentials'' (4, re_api_key) t
     @ findings_of ''API Credentials'' (5, re_apikey) t"
  by (simp add: scan_def scan_on_def AnthropicSecretsDetector_def enumerate_eq_zip upt_rec
      numeral_eq_Suc)

lemma findings_of_pattern_no:
  "f \<in> set (findings_of l (i, p) t) \<Longrightarrow> pattern_no f = i"
  by (auto simp: findings_of_def)

lemma filter_findings_of:
  "filter (\<lambda>f. pattern_no f = k) (findings_of l (i, p) t) =
     (if i = k then findings_of l (i, p) t else [])"
  by (auto simp: findings_of_def filter_map o_def split_def)

lemma findings_of_empty_iff:
  "findings_of l (i, p) t = [] \<longleftrightarrow> finditer p 0 t = []"
  by (simp add: findings_of_def)

subsection \<open>Matches and findings\<close>

lemma accepts_min_length: "accepts ic ns w \<Longrightarrow> min_length ns \<le> length w"
proof (induction ic ns w rule: accepts.induct)
  case (4 ic lo hi a ns w)
  from "4.prems" obtain k where k: "lo \<le> k" "k \<le> length w" "accepts ic ns (drop k w)"
    by auto
  from "4.IH" [of k] k have "min_length ns \<le> length w - k" by simp
  with k show ?case by simp
qed auto

lemma accepts_One_iff:
  "accepts ic (One a # ns) w \<longleftrightarrow> (\<exists>c w'. w = c # w' \<and> atom_ok ic a c \<and> accepts ic ns w')"
  by (cases w) auto

lemma accepts_repeat:
  assumes "lo \<le> length u" "within hi (length u)" "list_all (atom_ok ic a) u" "accepts ic ns w"
  shows "accepts ic (Max_Repeat lo hi a # ns) (u @ w)"
proof -
  have "length u \<in> {lo..length (u @ w)}" using assms(1) by simp
  with assms show ?thesis by (auto intro!: bexI [of _ "length u"])
qed

lemma has_match_iff: "has_match p t \<longleftrightarrow> (\<exists>u w v. t = u @ w @ v \<and> fullmatch p w)"
proof
  assume "has_match p t"
  then obtain i n where "fullmatch p (take n (drop i t))"
    unfolding has_match_def by blast
  moreover have "t = take i t @ take n (drop i t) @ drop n (drop i t)"
    by (simp only: append_take_drop_id)
  ultimately show "\<exists>u w v. t = u @ w @ v \<and> fullmatch p w" by blast
next
  assume "\<exists>u w v. t = u @ w @ v \<and> fullmatch p w"
  then obtain u w v where t: "t = u @ w @ v" and w: "fullmatch p w" by blast
  from t have "length u \<in> {..length t}" "length w \<in> {..length t - length u}"
    "take (length w) (drop (length u) t) = w"
    by simp_all
  with w show "has_match p t" unfolding has_match_def by metis
qed

lemma has_match_finditer: "has_match p t \<longleftrightarrow> finditer p pos t \<noteq> []"
proof
  assume "has_match p t"
  then show "finditer p pos t \<noteq> []"
    unfolding has_match_iff using finditer_finds by blast
next
  assume "finditer p pos t \<noteq> []"
  then obtain q w where "(q, w) \<in> set (finditer p pos t)"
    by (cases "finditer p pos t") auto
  from finditer_fullmatch [OF this] show "has_match p t"
    unfolding has_match_iff by blast
qed

lemma has_match_findings: "findings_of l (i, p) t \<noteq> [] \<longleftrightarrow> has_match p t"
  by (simp add: findings_of_empty_iff has_match_finditer [of p t 0])

lemma has_match_length:
  assumes "has_match p t" shows "min_length (nodes p) \<le> length t"
proof -
  from assms obtain u w v where t: "t = u @ w @ v" and "fullmatch p w"
    unfolding has_match_iff by blast
  then have "min_length (nodes p) \<le> length w"
    unfolding fullmatch_def by (intro accepts_min_length)
  with t show ?thesis by simp
qed

subsection \<open>The character sets in closed form\<close>

lemma range_upper_caseless:
  "(\<exists>p \<in> {65..90}. caseless p c) \<longleftrightarrow>
     (65 \<le> c \<and> c \<le> 90) \<or> (97 \<le> c \<and> c \<le> 122) \<or> c = 304 \<or> c = 305 \<or> c = 383 \<or> c = 8490"
  (is "?L \<longleftrightarrow> ?R")
proof
  assume ?L
  then show ?R by (auto simp: caseless_def unicode_tolower_def Let_def split: if_splits)
next
  assume ?R
  then consider "65 \<le> c \<and> c \<le> 90" | "97 \<le> c \<and> c \<le> 122" | "c = 304" | "c = 305"
    | "c = 383" | "c = 8490" by blast
  then show ?L
  proof cases
    case 1 then show ?thesis by (intro bexI [of _ c]) (auto simp: caseless_def)
  next
    case 2 then show ?thesis
      by (intro bexI [of _ "c - 32"]) (auto simp: caseless_def unicode_tolower_def)
  next
    case 3 then show ?thesis
      by (intro bexI [of _ 73]) (auto simp: caseless_def unicode_tolower_def)
  next
    case 4 then show ?thesis
      by (intro bexI [of _ 73]) (auto simp: caseless_def unicode_tolower_def)
  next
    case 5 then show ?thesis
      by (intro bexI [of _ 83]) (auto simp: caseless_def unicode_tolower_def)
  next
    case 6 then show ?thesis
      by (intro bexI [of _ 75]) (auto simp: caseless_def unicode_tolower_def)
  qed
qed

lemma range_lower_caseless:
  "(\<exists>p \<in> {97..122}. caseless p c) \<longleftrightarrow>
     (65 \<le> c \<and> c \<le> 90) \<or> (97 \<le> c \<and> c \<le> 122) \<or> c = 304 \<or> c = 305 \<or> c = 383 \<or> c = 8490"
  (is "?L \<longleftrightarrow> ?R")
proof
  assume ?L
  then show ?R by (auto simp: caseless_def unicode_tolower_def Let_def split: if_splits)
next
  assume ?R
  then consider "65 \<le> c \<and> c \<le> 90" | "97 \<le> c \<and> c \<le> 122" | "c = 304" | "c = 305"
    | "c = 383" | "c = 8490" by blast
  then show ?L
  proof cases
    case 1 then show ?thesis
      by (intro bexI [of _ "c + 32"]) (auto simp: caseless_def unicode_tolower_def)
  next
    case 2 then show ?thesis by (intro bexI [of _ c]) (auto simp: caseless_def)
  next
    case 3 then show ?thesis
      by (intro bexI [of _ 105]) (auto simp: caseless_def unicode_tolower_def)
  next
    case 4 then show ?thesis
      by (intro bexI [of _ 105]) (auto simp: caseless_def unicode_tolower_def)
  next
    case 5 then show ?thesis
      by (intro bexI [of _ 115]) (auto simp: caseless_def unicode_tolower_def)
  next
    case 6 then show ?thesis
      by (intro bexI [of _ 107]) (auto simp: caseless_def unicode_tolower_def)
  qed
qed

lemma range_digit_caseless:
  "(\<exists>p \<in> {48..57}. caseless p c) \<longleftrightarrow> 48 \<le> c \<and> c \<le> 57"
  by (auto simp: caseless_def unicode_tolower_def Let_def split: if_splits)

lemma caseless_uncased:
  "\<not> (65 \<le> p \<and> p \<le> 90) \<Longrightarrow> \<not> (97 \<le> p \<and> p \<le> 122) \<Longrightarrow> p < 128 \<Longrightarrow>
   caseless p c \<longleftrightarrow> c = p"
  by (auto simp: caseless_def unicode_tolower_def Let_def split: if_splits)

lemma atom_ok_word_hyphen:
  "atom_ok ic word_hyphen c \<longleftrightarrow>
     (65 \<le> c \<and> c \<le> 90) \<or> (97 \<le> c \<and> c \<le> 122) \<or> (48 \<le> c \<and> c \<le> 57) \<or> c = 95 \<or> c = 45
     \<or> (ic \<and> (c = 304 \<or> c = 305 \<or> c = 383 \<or> c = 8490))"
  by (cases ic)
    (auto simp: word_hyphen_def ord_def range_upper_caseless range_lower_caseless
      range_digit_caseless caseless_uncased)

lemma atom_ok_alnum:
  "atom_ok ic alnum c \<longleftrightarrow>
     (65 \<le> c \<and> c \<le> 90) \<or> (97 \<le> c \<and> c \<le> 122) \<or> (48 \<le> c \<and> c \<le> 57)
     \<or> (ic \<and> (c = 304 \<or> c = 305 \<or> c = 383 \<or> c = 8490))"
  by (cases ic)
    (auto simp: alnum_def ord_def range_upper_caseless range_lower_caseless
      range_digit_caseless)

lemma atom_ok_quote_space:
  "atom_ok ic quote_space c \<longleftrightarrow> c = 39 \<or> c = 34 \<or> is_space c"
  by (cases ic) (auto simp: quote_space_def ord_def caseless_uncased)

lemma atom_ok_colon_equals:
  "atom_ok ic colon_equals c \<longleftrightarrow> c = 58 \<or> c = 61"
  by (cases ic) (auto simp: colon_equals_def ord_def caseless_uncased)

lemma atom_ok_underscore_hyphen:
  "atom_ok ic underscore_hyphen c \<longleftrightarrow> c = 95 \<or> c = 45"
  by (cases ic) (auto simp: underscore_hyphen_def ord_def caseless_uncased)

subsection \<open>Running the engine on a given text\<close>

lemma replicate_numeral_Cons:
  "replicate (numeral k) x = x # replicate (pred_numeral k) x"
  by (simp add: numeral_eq_Suc)

lemmas eval_defs = replicate_numeral_Cons
  match_at_def re_anthropic_def re_sk_def re_pa_def re_api_key_def re_apikey_def
  re_compile_def literal_def str_def ord_def atom_ok_word_hyphen atom_ok_alnum
  atom_ok_quote_space atom_ok_colon_equals atom_ok_underscore_hyphen
  count_run_def backtrack.simps caseless_def
  unicode_tolower_def is_space_def Let_def findings_of_def

lemma caseless_tolower: "unicode_tolower c = unicode_tolower p \<Longrightarrow> caseless p c"
  by (simp add: caseless_def)

lemma scan_filter:
  "filter (\<lambda>f. pattern_no f = 1) (scan t) = findings_of ''API Credentials'' (1, re_anthropic) t"
  "filter (\<lambda>f. pattern_no f = 2) (scan t) = findings_of ''API Credentials'' (2, re_sk) t"
  "filter (\<lambda>f. pattern_no f = 3) (scan t) = findings_of ''API Credentials'' (3, re_pa) t"
  "filter (\<lambda>f. pattern_no f = 4) (scan t) = findings_of ''API Credentials'' (4, re_api_key) t"
  "filter (\<lambda>f. pattern_no f = 5) (scan t) = findings_of ''API Credentials'' (5, re_apikey) t"
  by (simp_all add: scan_unfold filter_findings_of)

lemma pattern_found_iff:
  "(\<exists>f \<in> set fs. pattern_no f = k) \<longleftrightarrow> filter (\<lambda>f. pattern_no f = k) fs \<noteq> []"
  by (simp add: filter_empty_conv)

lemma scan_pattern_iff:
  "(\<exists>f \<in> set (scan t). pattern_no f = 1) \<longleftrightarrow> has_match re_anthropic t"
  "(\<exists>f \<in> set (scan t). pattern_no f = 2) \<longleftrightarrow> has_match re_sk t"
  "(\<exists>f \<in> set (scan t). pattern_no f = 3) \<longleftrightarrow> has_match re_pa t"
  "(\<exists>f \<in> set (scan t). pattern_no f = 4) \<longleftrightarrow> has_match re_api_key t"
  "(\<exists>f \<in> set (scan t). pattern_no f = 5) \<longleftrightarrow> has_match re_apikey t"
  by (simp_all only: pattern_found_iff scan_filter has_match_findings)

lemma denylist_unfold:
  "denylist AnthropicSecretsDetector = [re_anthropic, re_sk, re_pa, re_api_key, re_apikey]"
  by (simp add: AnthropicSecretsDetector_def)

lemma scan_empty_iff:
  "scan t = [] \<longleftrightarrow> (\<forall>p \<in> set (denylist AnthropicSecretsDetector). \<not> has_match p t)"
proof -
  have "scan t = [] \<longleftrightarrow>
      findings_of ''API Credentials'' (1, re_anthropic) t = []
      \<and> findings_of ''API Credentials'' (2, re_sk) t = []
      \<and> findings_of ''API Credentials'' (3, re_pa) t = []
      \<and> findings_of ''API Credentials'' (4, re_api_key) t = []
      \<and> findings_of ''API Credentials'' (5, re_apikey) t = []"
    by (simp add: scan_unfold)
  also have "\<dots> \<longleftrightarrow> \<not> has_match re_anthropic t \<and> \<not> has_match re_sk t \<and> \<not> has_match re_pa t
      \<and> \<not> has_match re_api_key t \<and> \<not> has_match re_apikey t"
    using has_match_findings by blast
  finally show ?thesis by (simp add: denylist_unfold)
qed

lemma has_match_embedded: "has_match p t \<Longrightarrow> has_match p (u @ t @ v)"
proof -
  assume "has_match p t"
  then obtain a w b where "t = a @ w @ b" "fullmatch p w"
    unfolding has_match_iff by blast
  then have "u @ t @ v = (u @ a) @ w @ (b @ v)" "fullmatch p w" by simp_all
  then show ?thesis unfolding has_match_iff by blast
qed

lemma scan_pattern_index:
  assumes "i < length (denylist AnthropicSecretsDetector)"
  shows "(\<exists>f \<in> set (scan t). pattern_no f = Suc i)
     \<longleftrightarrow> has_match (denylist AnthropicSecretsDetector ! i) t"
proof -
  from assms have "i = 0 \<or> i = 1 \<or> i = 2 \<or> i = 3 \<or> i = 4"
    by (auto simp: denylist_unfold)
  then show ?thesis
    using scan_pattern_iff [of t]
    by (elim disjE) (simp_all add: denylist_unfold numeral_eq_Suc)
qed

lemma min_lengths:
  "min_length (nodes re_anthropic) = 108" "min_length (nodes re_sk) = 51"
  "min_length (nodes re_pa) = 51" "min_length (nodes re_api_key) = 27"
  "min_length (nodes re_apikey) = 27"
  by (simp_all add: re_anthropic_def re_sk_def re_pa_def re_api_key_def re_apikey_def
      re_compile_def literal_def)

lemma findings_of_matches:
  "map (\<lambda>f. (offset f, matched_text f)) (findings_of l (i, p) t) = finditer p 0 t"
  by (simp add: findings_of_def o_def split_def)

lemma scan_matches_index:
  assumes "i < length (denylist AnthropicSecretsDetector)"
  shows "map (\<lambda>f. (offset f, matched_text f)) (filter (\<lambda>f. pattern_no f = Suc i) (scan t))
     = finditer (denylist AnthropicSecretsDetector ! i) 0 t"
proof -
  from assms have "i = 0 \<or> i = 1 \<or> i = 2 \<or> i = 3 \<or> i = 4"
    by (auto simp: denylist_unfold)
  then show ?thesis
    using scan_filter [of t]
    by (elim disjE) (simp_all add: denylist_unfold numeral_eq_Suc findings_of_matches)
qed

text \<open>
  None of the five patterns has an empty match, so the scan never takes the branch of
  \<open>finditer\<close> for one.
\<close>

lemma denylist_no_empty_match:
  assumes "p \<in> set (denylist AnthropicSecretsDetector)"
  shows "match_at p s \<noteq> Some 0"
proof
  assume "match_at p s = Some 0"
  from match_at_sound [OF this] have "fullmatch p []" by simp
  then have "min_length (nodes p) \<le> 0"
    unfolding fullmatch_def using accepts_min_length [of "ignorecase p" "nodes p" "[]"] by simp
  with assms show False by (auto simp: denylist_unfold min_lengths)
qed

lemma short_text_no_match:
  assumes "length t < 27" and "p \<in> set (denylist AnthropicSecretsDetector)"
  shows "\<not> has_match p t"
proof
  assume "has_match p t"
  then have "min_length (nodes p) \<le> length t" by (rule has_match_length)
  with assms show False by (auto simp: denylist_unfold min_lengths)
qed

subsection \<open>Runs of the second format\<close>

lemma alnum_a: "atom_ok False alnum (ord CHR ''a'')"
  by (simp add: alnum_def ord_def)

lemma sk_run_fullmatch:
  assumes "48 \<le> n" shows "fullmatch re_sk (str ''sk-'' @ replicate n (ord CHR ''a''))"
proof -
  have "accepts False [Max_Repeat 48 None alnum] (replicate n (ord CHR ''a'') @ [])"
    using assms alnum_a by (intro accepts_repeat) (simp_all add: within_def list_all_iff)
  then show ?thesis
    by (simp add: fullmatch_def re_sk_def re_compile_def literal_def str_def ord_def)
qed

lemma sk_47: "scan (str ''sk-'' @ replicate 47 (ord CHR ''a'')) = []"
  unfolding scan_unfold by (simp add: eval_defs)

lemma sk_48: "scan (str ''sk-'' @ replicate 48 (ord CHR ''a'')) =
  [\<lparr>pattern_no = 2, matched_text = str ''sk-'' @ replicate 48 (ord CHR ''a''), offset = 0,
    category = ''API Credentials''\<rparr>]"
  unfolding scan_unfold by (simp add: eval_defs)

subsection \<open>The two assignment patterns\<close>

lemma accepts_skip_optional: "accepts ic ns w \<Longrightarrow> accepts ic (Max_Repeat 0 hi a # ns) w"
  using accepts_repeat [of 0 "[]" hi ic a ns w] by (simp add: within_def split: option.splits)

lemma accepts_literal_mono:
  assumes "\<And>r. accepts ic ns r \<Longrightarrow> accepts ic ns' r"
  shows "accepts ic (literal s @ ns) w \<Longrightarrow> accepts ic (literal s @ ns') w"
proof (induction s arbitrary: w)
  case Nil
  with assms show ?case by (simp add: literal_def)
next
  case (Cons c s)
  then show ?case by (cases w) (simp_all add: literal_def)
qed

lemma apikey_subsumed: "fullmatch re_apikey w \<Longrightarrow> fullmatch re_api_key w"
proof -
  let ?rest = "[Max_Repeat 0 None quote_space, One colon_equals, Max_Repeat 0 None quote_space,
      Max_Repeat 20 None word_hyphen]"
  assume "fullmatch re_apikey w"
  then have "accepts True (literal ''api'' @ (literal ''key'' @ ?rest)) w"
    by (simp add: fullmatch_def re_apikey_def re_compile_def literal_def)
  then have "accepts True
      (literal ''api'' @ (Max_Repeat 0 (Some 1) underscore_hyphen # literal ''key'' @ ?rest)) w"
    by (rule accepts_literal_mono [rotated]) (rule accepts_skip_optional)
  then show ?thesis
    by (simp add: fullmatch_def re_api_key_def re_compile_def)
qed

lemma apikey_example:
  "scan (str ''apikey=AAAAAAAAAAAAAAAAAAAAAAAA'') =
    [\<lparr>pattern_no = 4, matched_text = str ''apikey=AAAAAAAAAAAAAAAAAAAAAAAA'', offset = 0,
       category = ''API Credentials''\<rparr>,
     \<lparr>pattern_no = 5, matched_text = str ''apikey=AAAAAAAAAAAAAAAAAAAAAAAA'', offset = 0,
       category = ''API Credentials''\<rparr>]"
  unfolding scan_unfold by (simp add: eval_defs)

subsection \<open>Literal prefixes and letter case\<close>

lemma anthropic_prefix: "fullmatch re_anthropic w \<Longrightarrow> \<exists>r. w = str ''sk-ant-api03-'' @ r"
  by (auto simp: fullmatch_def re_anthropic_def re_compile_def literal_def accepts_One_iff str_def)

lemma sk_prefix: "fullmatch re_sk w \<Longrightarrow> \<exists>r. w = str ''sk-'' @ r"
  by (auto simp: fullmatch_def re_sk_def re_compile_def literal_def accepts_One_iff str_def)

lemma pa_prefix: "fullmatch re_pa w \<Longrightarrow> \<exists>r. w = str ''pa-'' @ r"
  by (auto simp: fullmatch_def re_pa_def re_compile_def literal_def accepts_One_iff str_def)

lemma match_holds_prefix:
  assumes "has_match p t" and "\<And>w. fullmatch p w \<Longrightarrow> \<exists>r. w = x @ r"
  shows "\<exists>u v. t = u @ x @ v"
proof -
  from assms(1) obtain u w v where t: "t = u @ w @ v" and "fullmatch p w"
    unfolding has_match_iff by blast
  with assms(2) obtain r where "w = x @ r" by blast
  with t have "t = u @ x @ (r @ v)" by simp
  then show ?thesis by blast
qed

lemma anthropic_needs_prefix:
  assumes "\<forall>u v. t \<noteq> u @ str ''sk-ant-api03-'' @ v"
  shows "filter (\<lambda>f. pattern_no f = 1) (scan t) = []"
proof (rule ccontr)
  assume "filter (\<lambda>f. pattern_no f = 1) (scan t) \<noteq> []"
  then have "has_match re_anthropic t" by (simp only: scan_filter has_match_findings)
  from match_holds_prefix [OF this anthropic_prefix] assms show False by blast
qed

lemma sk_needs_prefix:
  assumes "\<forall>u v. t \<noteq> u @ str ''sk-'' @ v"
  shows "filter (\<lambda>f. pattern_no f = 2) (scan t) = []"
proof (rule ccontr)
  assume "filter (\<lambda>f. pattern_no f = 2) (scan t) \<noteq> []"
  then have "has_match re_sk t" by (simp only: scan_filter has_match_findings)
  from match_holds_prefix [OF this sk_prefix] assms show False by blast
qed

lemma pa_needs_prefix:
  assumes "\<forall>u v. t \<noteq> u @ str ''pa-'' @ v"
  shows "filter (\<lambda>f. pattern_no f = 3) (scan t) = []"
proof (rule ccontr)
  assume "filter (\<lambda>f. pattern_no f = 3) (scan t) \<noteq> []"
  then have "has_match re_pa t" by (simp only: scan_filter has_match_findings)
  from match_holds_prefix [OF this pa_prefix] assms show False by blast
qed

lemma unicode_tolower_idem: "unicode_tolower (unicode_tolower c) = unicode_tolower c"
  by (simp add: unicode_tolower_def)

lemma caseless_tolower_arg: "caseless p (unicode_tolower c) = caseless p c"
  by (simp add: caseless_def unicode_tolower_idem)

lemma is_space_tolower: "is_space (unicode_tolower c) = is_space c"
  by (auto simp: is_space_def unicode_tolower_def)

lemma item_ok_tolower: "item_ok True i (unicode_tolower c) = item_ok True i c"
  by (cases i) (simp_all add: caseless_tolower_arg is_space_tolower)

lemma atom_ok_tolower: "atom_ok True a (unicode_tolower c) = atom_ok True a c"
  by (cases a) (simp_all add: caseless_tolower_arg item_ok_tolower)

lemma accepts_tolower: "accepts True ns (map unicode_tolower w) = accepts True ns w"
proof (induction ns arbitrary: w)
  case Nil
  then show ?case by simp
next
  case (Cons n ns)
  show ?case
  proof (cases n)
    case (One a)
    with Cons show ?thesis by (cases w) (simp_all add: atom_ok_tolower)
  next
    case (Max_Repeat lo hi a)
    with Cons show ?thesis
      by (simp add: list_all_iff atom_ok_tolower take_map drop_map)
  qed
qed

section \<open>A key of the first format\<close>

lemma anthropic_key_pattern_1:
  "findings_of ''API Credentials'' (1, re_anthropic)
     (str ''sk-ant-api03-'' @ replicate 95 (ord CHR ''A'')) =
   [\<lparr>pattern_no = 1, matched_text = str ''sk-ant-api03-'' @ replicate 95 (ord CHR ''A''),
     offset = 0, category = ''API Credentials''\<rparr>]"
  by (simp add: eval_defs)

lemma anthropic_key_pattern_2:
  "findings_of ''API Credentials'' (2, re_sk)
     (str ''sk-ant-api03-'' @ replicate 95 (ord CHR ''A'')) = []"
  by (simp add: eval_defs)

lemma anthropic_key_pattern_3:
  "findings_of ''API Credentials'' (3, re_pa)
     (str ''sk-ant-api03-'' @ replicate 95 (ord CHR ''A'')) = []"
  by (simp add: eval_defs)

lemma anthropic_key_pattern_4:
  "findings_of ''API Credentials'' (4, re_api_key)
     (str ''sk-ant-api03-'' @ replicate 95 (ord CHR ''A'')) = []"
  by (simp add: eval_defs)

lemma anthropic_key_pattern_5:
  "findings_of ''API Credentials'' (5, re_apikey)
     (str ''sk-ant-api03-'' @ replicate 95 (ord CHR ''A'')) = []"
  by (simp add: eval_defs)

text \<open>
  C1. For the input \<open>sk-ant-api03-\<close> followed by 95 times \<open>A\<close>, \<open>scan\<close> returns exactly
  one finding; it comes from pattern 1, covers the whole input at offset 0, and none of
  the other four patterns contributes a finding.
\<close>

theorem C1_anthropic_key_one_finding:
  "scan (str ''sk-ant-api03-'' @ replicate 95 (ord CHR ''A'')) =
     [\<lparr>pattern_no = 1, matched_text = str ''sk-ant-api03-'' @ replicate 95 (ord CHR ''A''),
       offset = 0, category = ''API Credentials''\<rparr>]"
  unfolding scan_unfold
  by (simp only: anthropic_key_pattern_1 anthropic_key_pattern_2 anthropic_key_pattern_3
      anthropic_key_pattern_4 anthropic_key_pattern_5 append_Nil2)

section \<open>The length threshold of the second pattern\<close>

lemma sk_threshold:
  "filter (\<lambda>f. pattern_no f = 2) (scan (str ''sk-'' @ replicate n (ord CHR ''a''))) \<noteq> []
     \<longleftrightarrow> 48 \<le> n"
proof -
  let ?t = "str ''sk-'' @ replicate n (ord CHR ''a'')"
  have "filter (\<lambda>f. pattern_no f = 2) (scan ?t) = findings_of ''API Credentials'' (2, re_sk) ?t"
    by (simp add: scan_unfold filter_findings_of)
  then have eq: "filter (\<lambda>f. pattern_no f = 2) (scan ?t) \<noteq> [] \<longleftrightarrow> has_match re_sk ?t"
    by (simp add: has_match_findings)
  show ?thesis
  proof
    assume "filter (\<lambda>f. pattern_no f = 2) (scan ?t) \<noteq> []"
    with eq have "has_match re_sk ?t" by simp
    from has_match_length [OF this] show "48 \<le> n"
      by (simp add: re_sk_def re_compile_def literal_def str_def)
  next
    assume "48 \<le> n"
    then have "fullmatch re_sk ?t" by (rule sk_run_fullmatch)
    then have "has_match re_sk ?t"
      unfolding has_match_iff by (intro exI [of _ "[]"] exI [of _ ?t]) simp
    with eq show "filter (\<lambda>f. pattern_no f = 2) (scan ?t) \<noteq> []" by simp
  qed
qed

text \<open>
  C2. The length threshold of pattern 2 is exactly 48: on \<open>sk-\<close> followed by 47 times \<open>a\<close>
  the scan has no finding of pattern 2, on \<open>sk-\<close> followed by 48 times \<open>a\<close> it has exactly
  one, and in general \<open>sk-\<close> followed by \<open>n\<close> times \<open>a\<close> gives a finding of pattern 2
  exactly when \<open>n\<close> is at least 48.
\<close>

theorem C2_sk_threshold_48:
  "filter (\<lambda>f. pattern_no f = 2) (scan (str ''sk-'' @ replicate 47 (ord CHR ''a''))) = []
   \<and> filter (\<lambda>f. pattern_no f = 2) (scan (str ''sk-'' @ replicate 48 (ord CHR ''a''))) =
       [\<lparr>pattern_no = 2, matched_text = str ''sk-'' @ replicate 48 (ord CHR ''a''), offset = 0,
         category = ''API Credentials''\<rparr>]
   \<and> (\<forall>n. (filter (\<lambda>f. pattern_no f = 2) (scan (str ''sk-'' @ replicate n (ord CHR ''a''))) \<noteq> [])
         = (48 \<le> n))"
proof (intro conjI allI)
  show "filter (\<lambda>f. pattern_no f = 2) (scan (str ''sk-'' @ replicate 47 (ord CHR ''a''))) = []"
    by (simp only: sk_47 filter.simps)
  show "filter (\<lambda>f. pattern_no f = 2) (scan (str ''sk-'' @ replicate 48 (ord CHR ''a''))) =
       [\<lparr>pattern_no = 2, matched_text = str ''sk-'' @ replicate 48 (ord CHR ''a''), offset = 0,
         category = ''API Credentials''\<rparr>]"
    by (simp only: sk_48) simp
  show "(filter (\<lambda>f. pattern_no f = 2) (scan (str ''sk-'' @ replicate n (ord CHR ''a''))) \<noteq> [])
         = (48 \<le> n)" for n
    by (rule sk_threshold)
qed

section \<open>Key-value assignments\<close>

lemma api_key_example:
  "scan (str ''API_KEY: '' @ [ord (CHR 0x22)] @ str ''abcdEFGH12345678901234'' @ [ord (CHR 0x22)]) =
    [\<lparr>pattern_no = 4,
      matched_text = str ''API_KEY: '' @ [ord (CHR 0x22)] @ str ''abcdEFGH12345678901234'',
      offset = 0, category = ''API Credentials''\<rparr>]"
  unfolding scan_unfold by (simp add: eval_defs)

lemma api_key_shape_fullmatch:
  assumes k1: "map unicode_tolower k1 = str ''api''"
    and m: "m = [] \<or> m = str ''_'' \<or> m = str ''-''"
    and k2: "map unicode_tolower k2 = str ''key''"
    and q1: "list_all (\<lambda>c. c = ord (CHR 0x27) \<or> c = ord (CHR 0x22) \<or> is_space c) q1"
    and sep: "sep = ord CHR '':'' \<or> sep = ord CHR ''=''"
    and q2: "list_all (\<lambda>c. c = ord (CHR 0x27) \<or> c = ord (CHR 0x22) \<or> is_space c) q2"
    and len: "20 \<le> length val"
    and val: "list_all (\<lambda>c. (ord CHR ''A'' \<le> c \<and> c \<le> ord CHR ''Z'') \<or> (ord CHR ''a'' \<le> c \<and> c \<le> ord CHR ''z'')
                \<or> (ord CHR ''0'' \<le> c \<and> c \<le> ord CHR ''9'') \<or> c = ord CHR ''_'' \<or> c = ord CHR ''-'') val"
  shows "fullmatch re_api_key (k1 @ m @ k2 @ q1 @ [sep] @ q2 @ val)"
proof -
  let ?qs = "Max_Repeat 0 None quote_space"
  let ?wh = "Max_Repeat 20 None word_hyphen"
  have a1: "accepts True [?wh] (val @ [])"
    using len val
    by (intro accepts_repeat) (auto simp: within_def list_all_iff atom_ok_word_hyphen ord_def)
  have a2: "accepts True [?qs, ?wh] (q2 @ val)"
    using q2 a1
    by (intro accepts_repeat) (auto simp: within_def list_all_iff atom_ok_quote_space ord_def)
  have a3: "accepts True [One colon_equals, ?qs, ?wh] (sep # q2 @ val)"
    using sep a2 by (auto simp: atom_ok_colon_equals ord_def)
  have a4: "accepts True [?qs, One colon_equals, ?qs, ?wh] (q1 @ sep # q2 @ val)"
    using q1 a3
    by (intro accepts_repeat) (auto simp: within_def list_all_iff atom_ok_quote_space ord_def)
  from k2 obtain x y z where k2': "k2 = [x, y, z]" "unicode_tolower x = 107"
      "unicode_tolower y = 101" "unicode_tolower z = 121"
    by (auto simp: str_def ord_def map_eq_Cons_conv)
  have a5: "accepts True (literal ''key'' @ [?qs, One colon_equals, ?qs, ?wh])
      (k2 @ q1 @ sep # q2 @ val)"
    using k2' a4 by (simp add: literal_def ord_def caseless_tolower unicode_tolower_def)
  have a6: "accepts True (Max_Repeat 0 (Some 1) underscore_hyphen #
      literal ''key'' @ [?qs, One colon_equals, ?qs, ?wh]) (m @ k2 @ q1 @ sep # q2 @ val)"
    using m a5
    by (intro accepts_repeat)
      (auto simp: within_def atom_ok_underscore_hyphen str_def ord_def)
  from k1 obtain a b c where k1': "k1 = [a, b, c]" "unicode_tolower a = 97"
      "unicode_tolower b = 112" "unicode_tolower c = 105"
    by (auto simp: str_def ord_def map_eq_Cons_conv)
  have "accepts True (literal ''api'' @ Max_Repeat 0 (Some 1) underscore_hyphen #
      literal ''key'' @ [?qs, One colon_equals, ?qs, ?wh]) (k1 @ m @ k2 @ q1 @ sep # q2 @ val)"
    using k1' a6 by (simp add: literal_def ord_def caseless_tolower unicode_tolower_def)
  then show ?thesis
    by (simp add: fullmatch_def re_api_key_def re_compile_def)
qed

lemma api_key_shape_found:
  assumes "map unicode_tolower k1 = str ''api''"
    and "m = [] \<or> m = str ''_'' \<or> m = str ''-''"
    and "map unicode_tolower k2 = str ''key''"
    and "list_all (\<lambda>c. c = ord (CHR 0x27) \<or> c = ord (CHR 0x22) \<or> is_space c) q1"
    and "sep = ord CHR '':'' \<or> sep = ord CHR ''=''"
    and "list_all (\<lambda>c. c = ord (CHR 0x27) \<or> c = ord (CHR 0x22) \<or> is_space c) q2"
    and "20 \<le> length val"
    and "list_all (\<lambda>c. (ord CHR ''A'' \<le> c \<and> c \<le> ord CHR ''Z'') \<or> (ord CHR ''a'' \<le> c \<and> c \<le> ord CHR ''z'')
                \<or> (ord CHR ''0'' \<le> c \<and> c \<le> ord CHR ''9'') \<or> c = ord CHR ''_'' \<or> c = ord CHR ''-'') val"
  shows "\<exists>f \<in> set (scan (u @ k1 @ m @ k2 @ q1 @ [sep] @ q2 @ val @ rest)). pattern_no f = 4"
proof -
  have "fullmatch re_api_key (k1 @ m @ k2 @ q1 @ [sep] @ q2 @ val)"
    using assms by (rule api_key_shape_fullmatch)
  moreover have "u @ k1 @ m @ k2 @ q1 @ [sep] @ q2 @ val @ rest
      = u @ (k1 @ m @ k2 @ q1 @ [sep] @ q2 @ val) @ rest" by simp
  ultimately have "has_match re_api_key (u @ k1 @ m @ k2 @ q1 @ [sep] @ q2 @ val @ rest)"
    unfolding has_match_iff by blast
  then show ?thesis by (simp only: scan_pattern_iff)
qed

text \<open>
  C3. On the input \<open>API_KEY: "abcdEFGH12345678901234"\<close> the scan returns one finding, of
  pattern 4. In general pattern 4 finds the key-value shape in any text: \<open>api\<close>, an
  optional \<open>_\<close> or \<open>-\<close>, \<open>key\<close> (all in either letter case), any quotes and white space,
  \<open>:\<close> or \<open>=\<close>, any quotes and white space, and a value of 20 or more characters from
  A-Z, a-z, 0-9, underscore and hyphen.
\<close>

theorem C3_api_key_assignment:
  "scan (str ''API_KEY: '' @ [ord (CHR 0x22)] @ str ''abcdEFGH12345678901234'' @ [ord (CHR 0x22)]) =
     [\<lparr>pattern_no = 4,
       matched_text = str ''API_KEY: '' @ [ord (CHR 0x22)] @ str ''abcdEFGH12345678901234'',
       offset = 0, category = ''API Credentials''\<rparr>]
   \<and> (\<forall>u k1 m k2 q1 sep q2 val rest.
         map unicode_tolower k1 = str ''api''
         \<and> (m = [] \<or> m = str ''_'' \<or> m = str ''-'')
         \<and> map unicode_tolower k2 = str ''key''
         \<and> list_all (\<lambda>c. c = ord (CHR 0x27) \<or> c = ord (CHR 0x22) \<or> is_space c) q1
         \<and> (sep = ord CHR '':'' \<or> sep = ord CHR ''='')
         \<and> list_all (\<lambda>c. c = ord (CHR 0x27) \<or> c = ord (CHR 0x22) \<or> is_space c) q2
         \<and> 20 \<le> length val
         \<and> list_all (\<lambda>c. (ord CHR ''A'' \<le> c \<and> c \<le> ord CHR ''Z'')
               \<or> (ord CHR ''a'' \<le> c \<and> c \<le> ord CHR ''z'')
               \<or> (ord CHR ''0'' \<le> c \<and> c \<le> ord CHR ''9'')
               \<or> c = ord CHR ''_'' \<or> c = ord CHR ''-'') val
         \<longrightarrow> (\<exists>f \<in> set (scan (u @ k1 @ m @ k2 @ q1 @ [sep] @ q2 @ val @ rest)).
                pattern_no f = 4))"
proof (intro conjI allI impI)
  show "scan (str ''API_KEY: '' @ [ord (CHR 0x22)] @ str ''abcdEFGH12345678901234'' @ [ord (CHR 0x22)]) =
     [\<lparr>pattern_no = 4,
       matched_text = str ''API_KEY: '' @ [ord (CHR 0x22)] @ str ''abcdEFGH12345678901234'',
       offset = 0, category = ''API Credentials''\<rparr>]"
    by (rule api_key_example)
next
  fix u k1 m k2 q1 sep q2 val rest
  assume "map unicode_tolower k1 = str ''api''
         \<and> (m = [] \<or> m = str ''_'' \<or> m = str ''-'')
         \<and> map unicode_tolower k2 = str ''key''
         \<and> list_all (\<lambda>c. c = ord (CHR 0x27) \<or> c = ord (CHR 0x22) \<or> is_space c) q1
         \<and> (sep = ord CHR '':'' \<or> sep = ord CHR ''='')
         \<and> list_all (\<lambda>c. c = ord (CHR 0x27) \<or> c = ord (CHR 0x22) \<or> is_space c) q2
         \<and> 20 \<le> length val
         \<and> list_all (\<lambda>c. (ord CHR ''A'' \<le> c \<and> c \<le> ord CHR ''Z'')
               \<or> (ord CHR ''a'' \<le> c \<and> c \<le> ord CHR ''z'')
               \<or> (ord CHR ''0'' \<le> c \<and> c \<le> ord CHR ''9'')
               \<or> c = ord CHR ''_'' \<or> c = ord CHR ''-'') val"
  then show "\<exists>f \<in> set (scan (u @ k1 @ m @ k2 @ q1 @ [sep] @ q2 @ val @ rest)). pattern_no f = 4"
    by (intro api_key_shape_found) simp_all
qed

text \<open>
  The general statement at \<open>token: Api-Key = 'abcdefghij0123456789_-';\<close>, with a single
  quote and spaces around the separator.
\<close>

theorem C3_api_key_assignment_witness:
  "\<exists>f \<in> set (scan (str ''token: '' @ str ''Api'' @ str ''-'' @ str ''Key'' @ str '' ''
       @ [ord CHR ''=''] @ (str '' '' @ [ord (CHR 0x27)]) @ str ''abcdefghij0123456789_-''
       @ ([ord (CHR 0x27)] @ str '';''))). pattern_no f = 4"
proof -
  have "map unicode_tolower (str ''Api'') = str ''api''
      \<and> (str ''-'' = [] \<or> str ''-'' = str ''_'' \<or> str ''-'' = str ''-'')
      \<and> map unicode_tolower (str ''Key'') = str ''key''
      \<and> list_all (\<lambda>c. c = ord (CHR 0x27) \<or> c = ord (CHR 0x22) \<or> is_space c) (str '' '')
      \<and> (ord CHR ''='' = ord CHR '':'' \<or> ord CHR ''='' = ord CHR ''='')
      \<and> list_all (\<lambda>c. c = ord (CHR 0x27) \<or> c = ord (CHR 0x22) \<or> is_space c)
            (str '' '' @ [ord (CHR 0x27)])
      \<and> 20 \<le> length (str ''abcdefghij0123456789_-'')
      \<and> list_all (\<lambda>c. (ord CHR ''A'' \<le> c \<and> c \<le> ord CHR ''Z'')
               \<or> (ord CHR ''a'' \<le> c \<and> c \<le> ord CHR ''z'')
               \<or> (ord CHR ''0'' \<le> c \<and> c \<le> ord CHR ''9'')
               \<or> c = ord CHR ''_'' \<or> c = ord CHR ''-'') (str ''abcdefghij0123456789_-'')"
    by (simp add: str_def ord_def unicode_tolower_def is_space_def)
  with C3_api_key_assignment show ?thesis by blast
qed

section \<open>Texts without a match\<close>

text \<open>
  C4. A text none of whose parts is matched by any of the five patterns gives the empty
  list of findings: an ordinary result, the scan has no failure case.
\<close>

theorem C4_no_match_no_finding:
  assumes "\<forall>p \<in> set (denylist AnthropicSecretsDetector).
      \<forall>u w v. t = u @ w @ v \<longrightarrow> \<not> fullmatch p w"
  shows "scan t = []"
  using assms unfolding scan_empty_iff has_match_iff by blast

text \<open>The statement at \<open>print(42)\<close>, which is shorter than any match.\<close>

theorem C4_no_match_no_finding_witness: "scan (str ''print(42)'') = []"
proof -
  have "\<forall>p \<in> set (denylist AnthropicSecretsDetector).
      \<forall>u w v. str ''print(42)'' = u @ w @ v \<longrightarrow> \<not> fullmatch p w"
  proof (intro ballI allI impI)
    fix p u w v
    assume p: "p \<in> set (denylist AnthropicSecretsDetector)"
      and t: "str ''print(42)'' = u @ w @ v"
    have "length (str ''print(42)'') < 27" by (simp add: str_def)
    from short_text_no_match [OF this p] t show "\<not> fullmatch p w"
      unfolding has_match_iff by blast
  qed
  then show ?thesis by (rule C4_no_match_no_finding)
qed

section \<open>Patterns do not suppress each other\<close>

text \<open>
  C5. The patterns are evaluated independently: whenever a pattern of the list has a match
  in the text, the scan holds a finding of that pattern, whatever the other patterns
  match; the findings of a pattern are exactly its own matches, found by it alone. So when
  two or more patterns have a match, each of them has its finding.
\<close>

theorem C5_patterns_independent:
  assumes "i < length (denylist AnthropicSecretsDetector)"
    and "has_match (denylist AnthropicSecretsDetector ! i) t"
  shows "(\<exists>f \<in> set (scan t). pattern_no f = Suc i)
    \<and> map (\<lambda>f. (offset f, matched_text f)) (filter (\<lambda>f. pattern_no f = Suc i) (scan t))
        = finditer (denylist AnthropicSecretsDetector ! i) 0 t"
  using assms by (simp only: scan_pattern_index scan_matches_index)

text \<open>
  The statement at \<open>api_key=sk-\<close> followed by 48 times \<open>a\<close>: the second and the fourth
  pattern both match, and both have a finding.
\<close>

theorem C5_patterns_independent_witness:
  "(\<exists>f \<in> set (scan (str ''api_key='' @ str ''sk-'' @ replicate 48 (ord CHR ''a''))).
      pattern_no f = 2)
   \<and> (\<exists>f \<in> set (scan (str ''api_key='' @ str ''sk-'' @ replicate 48 (ord CHR ''a''))).
      pattern_no f = 4)"
proof -
  let ?val = "str ''sk-'' @ replicate 48 (ord CHR ''a'')"
  let ?t = "str ''api_key='' @ ?val"
  have "fullmatch re_sk ?val" by (rule sk_run_fullmatch) simp
  moreover have "?t = str ''api_key='' @ ?val @ []" by simp
  ultimately have "has_match re_sk ?t" unfolding has_match_iff by blast
  then have m2: "has_match (denylist AnthropicSecretsDetector ! 1) ?t"
    by (simp add: denylist_unfold)
  have "fullmatch re_api_key
      (str ''api'' @ str ''_'' @ str ''key'' @ [] @ [ord CHR ''=''] @ [] @ ?val)"
    by (rule api_key_shape_fullmatch)
      (simp_all add: str_def ord_def unicode_tolower_def list_all_iff)
  moreover have "?t = [] @ (str ''api'' @ str ''_'' @ str ''key'' @ [] @ [ord CHR ''='']
      @ [] @ ?val) @ []"
    by (simp add: str_def)
  ultimately have "has_match re_api_key ?t" unfolding has_match_iff by blast
  then have m4: "has_match (denylist AnthropicSecretsDetector ! 3) ?t"
    by (simp add: denylist_unfold)
  have l: "1 < length (denylist AnthropicSecretsDetector)"
    "3 < length (denylist AnthropicSecretsDetector)"
    by (simp_all add: denylist_unfold)
  from C5_patterns_independent [OF l(1) m2, THEN conjunct1]
    C5_patterns_independent [OF l(2) m4, THEN conjunct1]
  show ?thesis by (simp add: numeral_2_eq_2)
qed

section \<open>The overlap of the two assignment patterns\<close>

lemma apikey_two_findings:
  assumes "has_match re_apikey t"
  shows "(\<exists>f \<in> set (scan t). pattern_no f = 4) \<and> (\<exists>f \<in> set (scan t). pattern_no f = 5)
    \<and> 2 \<le> length (scan t)"
proof -
  from assms have "has_match re_api_key t"
    unfolding has_match_iff using apikey_subsumed by blast
  with assms have ne: "findings_of ''API Credentials'' (4, re_api_key) t \<noteq> []"
      "findings_of ''API Credentials'' (5, re_apikey) t \<noteq> []"
    by (simp_all add: has_match_findings)
  then have "0 < length (findings_of ''API Credentials'' (4, re_api_key) t)"
    "0 < length (findings_of ''API Credentials'' (5, re_apikey) t)"
    by simp_all
  moreover have "length (scan t) =
      length (findings_of ''API Credentials'' (1, re_anthropic) t)
      + length (findings_of ''API Credentials'' (2, re_sk) t)
      + length (findings_of ''API Credentials'' (3, re_pa) t)
      + length (findings_of ''API Credentials'' (4, re_api_key) t)
      + length (findings_of ''API Credentials'' (5, re_apikey) t)"
    by (simp add: scan_unfold)
  ultimately have "2 \<le> length (scan t)" by linarith
  moreover from ne have "\<exists>f \<in> set (scan t). pattern_no f = 4" "\<exists>f \<in> set (scan t). pattern_no f = 5"
    unfolding pattern_found_iff scan_filter by simp_all
  ultimately show ?thesis by blast
qed

text \<open>
  C6. Whatever pattern 5 matches, pattern 4 matches too (its separator between \<open>api\<close> and
  \<open>key\<close> is optional), and the scan does not remove duplicates: a text with a match of
  pattern 5 has a finding of pattern 4 and a finding of pattern 5, so at least two
  findings.
\<close>

theorem C6_apikey_reported_twice:
  "(\<forall>w. fullmatch re_apikey w \<longrightarrow> fullmatch re_api_key w)
   \<and> (\<forall>t. has_match re_apikey t \<longrightarrow>
         (\<exists>f \<in> set (scan t). pattern_no f = 4) \<and> (\<exists>f \<in> set (scan t). pattern_no f = 5)
         \<and> 2 \<le> length (scan t))"
  using apikey_subsumed apikey_two_findings by blast

text \<open>
  The statement at \<open>apikey=\<close> followed by 24 times \<open>A\<close>: the scan returns the same text
  at the same offset twice, once for each of the two patterns.
\<close>

theorem C6_apikey_reported_twice_witness:
  "fullmatch re_api_key (str ''apikey=AAAAAAAAAAAAAAAAAAAAAAAA'')
   \<and> scan (str ''apikey=AAAAAAAAAAAAAAAAAAAAAAAA'') =
      [\<lparr>pattern_no = 4, matched_text = str ''apikey=AAAAAAAAAAAAAAAAAAAAAAAA'', offset = 0,
         category = ''API Credentials''\<rparr>,
       \<lparr>pattern_no = 5, matched_text = str ''apikey=AAAAAAAAAAAAAAAAAAAAAAAA'', offset = 0,
         category = ''API Credentials''\<rparr>]
   \<and> 2 \<le> length (scan (str ''apikey=AAAAAAAAAAAAAAAAAAAAAAAA''))"
proof -
  let ?t = "str ''apikey=AAAAAAAAAAAAAAAAAAAAAAAA''"
  have "match_at re_apikey ?t = Some 31" by (simp add: eval_defs)
  from match_at_sound [OF this] have full: "fullmatch re_apikey ?t" by (simp add: str_def)
  then have "has_match re_apikey ?t"
    unfolding has_match_iff by (intro exI [of _ "[]"] exI [of _ ?t]) simp
  with full C6_apikey_reported_twice
  have "fullmatch re_api_key ?t" and "2 \<le> length (scan ?t)" by blast+
  with apikey_example show ?thesis by simp
qed

section \<open>Letter case\<close>

lemma upper_examples:
  "scan (str ''SK-'' @ replicate 48 (ord CHR ''a'')) = []"
  "scan (str ''PA-'' @ replicate 48 (ord CHR ''a'')) = []"
  "scan (str ''SK-ANT-API03-'' @ replicate 95 (ord CHR ''A'')) = []"
  unfolding scan_unfold by (simp_all add: eval_defs)

lemma flags:
  "map ignorecase (denylist AnthropicSecretsDetector) = [False, False, False, True, True]"
  by (simp add: denylist_unfold re_anthropic_def re_sk_def re_pa_def re_api_key_def
      re_apikey_def re_compile_def)

text \<open>
  C7. The prefixes of patterns 1, 2 and 3 are matched in their exact letter case: a text
  in which \<open>sk-ant-api03-\<close> (or \<open>sk-\<close>, or \<open>pa-\<close>) does not occur as written gives no
  finding of that pattern, for instance \<open>SK-\<close> or \<open>PA-\<close> followed by 48 alphanumeric
  characters, or the first format in capitals. Only patterns 4 and 5 carry the flag that
  ignores case, and for them a text and its lower-cased form are matched alike.
\<close>

theorem C7_vendor_prefixes_case_sensitive:
  "((\<forall>u v. t \<noteq> u @ str ''sk-ant-api03-'' @ v) \<longrightarrow>
       filter (\<lambda>f. pattern_no f = 1) (scan t) = [])
   \<and> ((\<forall>u v. t \<noteq> u @ str ''sk-'' @ v) \<longrightarrow> filter (\<lambda>f. pattern_no f = 2) (scan t) = [])
   \<and> ((\<forall>u v. t \<noteq> u @ str ''pa-'' @ v) \<longrightarrow> filter (\<lambda>f. pattern_no f = 3) (scan t) = [])
   \<and> scan (str ''SK-'' @ replicate 48 (ord CHR ''a'')) = []
   \<and> scan (str ''PA-'' @ replicate 48 (ord CHR ''a'')) = []
   \<and> scan (str ''SK-ANT-API03-'' @ replicate 95 (ord CHR ''A'')) = []
   \<and> map ignorecase (denylist AnthropicSecretsDetector) = [False, False, False, True, True]
   \<and> fullmatch re_api_key (map unicode_tolower w) = fullmatch re_api_key w
   \<and> fullmatch re_apikey (map unicode_tolower w) = fullmatch re_apikey w"
proof (intro conjI impI)
  show "fullmatch re_api_key (map unicode_tolower w) = fullmatch re_api_key w"
    by (simp add: fullmatch_def re_api_key_def re_compile_def accepts_tolower)
  show "fullmatch re_apikey (map unicode_tolower w) = fullmatch re_apikey w"
    by (simp add: fullmatch_def re_apikey_def re_compile_def accepts_tolower)
  show "filter (\<lambda>f. pattern_no f = 1) (scan t) = []"
    if "\<forall>u v. t \<noteq> u @ str ''sk-ant-api03-'' @ v"
    using that by (rule anthropic_needs_prefix)
  show "filter (\<lambda>f. pattern_no f = 2) (scan t) = []" if "\<forall>u v. t \<noteq> u @ str ''sk-'' @ v"
    using that by (rule sk_needs_prefix)
  show "filter (\<lambda>f. pattern_no f = 3) (scan t) = []" if "\<forall>u v. t \<noteq> u @ str ''pa-'' @ v"
    using that by (rule pa_needs_prefix)
qed (simp_all only: upper_examples flags)

text \<open>
  The statement at \<open>SK-\<close> followed by 48 times \<open>a\<close>, where \<open>sk-\<close> does not occur, and at
  \<open>API_KEY=\<close> followed by 20 times \<open>A\<close>, which pattern 4 matches as it matches the
  lower-cased text.
\<close>

theorem C7_vendor_prefixes_case_sensitive_witness:
  "filter (\<lambda>f. pattern_no f = 2) (scan (str ''SK-'' @ replicate 48 (ord CHR ''a''))) = []
   \<and> fullmatch re_api_key (str ''API_KEY=AAAAAAAAAAAAAAAAAAAA'')"
proof -
  let ?t = "str ''SK-'' @ replicate 48 (ord CHR ''a'')"
  have "\<forall>u v. ?t \<noteq> u @ str ''sk-'' @ v"
  proof (intro allI notI)
    fix u v
    assume "?t = u @ str ''sk-'' @ v"
    then have "set ?t = set (u @ str ''sk-'' @ v)" by simp
    then have "ord CHR ''s'' \<in> set ?t" by (simp add: str_def)
    then show False by (simp add: str_def ord_def)
  qed
  with C7_vendor_prefixes_case_sensitive [of ?t]
  have a: "filter (\<lambda>f. pattern_no f = 2) (scan ?t) = []" by blast
  have "match_at re_api_key (str ''api_key=aaaaaaaaaaaaaaaaaaaa'') = Some 28"
    by (simp add: eval_defs)
  from match_at_sound [OF this]
  have "fullmatch re_api_key (str ''api_key=aaaaaaaaaaaaaaaaaaaa'')" by (simp add: str_def)
  moreover have "map unicode_tolower (str ''API_KEY=AAAAAAAAAAAAAAAAAAAA'')
      = str ''api_key=aaaaaaaaaaaaaaaaaaaa''"
    by (simp add: str_def ord_def unicode_tolower_def)
  ultimately have "fullmatch re_api_key (str ''API_KEY=AAAAAAAAAAAAAAAAAAAA'')"
    using C7_vendor_prefixes_case_sensitive [of _ "str ''API_KEY=AAAAAAAAAAAAAAAAAAAA''"]
    by simp
  with a show ?thesis by simp
qed

section \<open>The category of a finding\<close>

text \<open>
  C8. Every finding of every scan carries the one category of the detector, the constant
  \<open>API Credentials\<close>.
\<close>

theorem C8_single_category:
  "secret_type AnthropicSecretsDetector = ''API Credentials''
   \<and> (\<forall>f \<in> set (scan t). category f = ''API Credentials'')"
  by (auto simp: scan_unfold findings_of_def AnthropicSecretsDetector_def)

text \<open>The statement at \<open>sk-\<close> followed by 48 times \<open>a\<close>, where the scan has a finding.\<close>

theorem C8_single_category_witness:
  "\<exists>f \<in> set (scan (str ''sk-'' @ replicate 48 (ord CHR ''a''))).
     category f = ''API Credentials''"
proof -
  let ?t = "str ''sk-'' @ replicate 48 (ord CHR ''a'')"
  have "scan ?t \<noteq> []" by (simp only: sk_48) simp
  then have "hd (scan ?t) \<in> set (scan ?t)" by (rule hd_in_set)
  moreover from C8_single_category [of ?t]
  have "\<forall>f \<in> set (scan ?t). category f = ''API Credentials''" by (rule conjunct2)
  ultimately show ?thesis by blast
qed

section \<open>Scanning leaves the detector as it is\<close>


section \<open>Detection inside a longer text\<close>

text \<open>
  C10. The patterns are not anchored, so detection is monotone under embedding: if the
  scan of \<open>t\<close> has a finding, so has the scan of \<open>u @ t @ v\<close> for any \<open>u\<close> and \<open>v\<close>.
\<close>

theorem C10_detection_monotone:
  assumes "scan t \<noteq> []"
  shows "scan (u @ t @ v) \<noteq> []"
  using assms unfolding scan_empty_iff using has_match_embedded by blast

text \<open>The statement at \<open>sk-\<close> followed by 48 times \<open>a\<close>, put into a line of code.\<close>

theorem C10_detection_monotone_witness:
  "scan (str ''key = '' @ (str ''sk-'' @ replicate 48 (ord CHR ''a'')) @ str '' # secret'') \<noteq> []"
proof -
  have "scan (str ''sk-'' @ replicate 48 (ord CHR ''a'')) \<noteq> []" by (simp only: sk_48) simp
  then show ?thesis by (rule C10_detection_monotone)
qed

end
